theory Spec2Isabelle
  imports Main "HOL-Library.Word"
begin

section \<open>Pointers, the free store and the objects\<close>

text \<open>
  The header \<open>arr.h\<close> declares a non-owning \<open>slice\<close>, a fixed-size \<open>array\<close> and the
  variable-size \<open>array<type_t,0>\<close> which owns a buffer obtained from \<open>new[]\<close>.
  All sizes are \<open>uint64_t\<close>, modelled as 64-bit words.

  A pointer is either \<open>nullptr\<close> or a block of the free store together with an element
  offset into it. The free store is the list of all blocks ever allocated: \<open>new[]\<close>
  appends a block (so its address is fresh), \<open>delete[]\<close> turns a block into \<open>None\<close>.
  A cell of a block holds \<open>None\<close> while it is uninitialised, as the elements of
  \<open>new type_t[size]\<close> are. Allocation is taken to succeed always. What C++ leaves
  undefined (reading or writing outside a live block, deleting what is not a
  live \<open>new[]\<close> block) is an error value of the model.

  Objects of type \<open>array<type_t>\<close> live in a store indexed by their identity, so that
  \<open>this\<close> and a reference parameter may denote the same object, as in \<open>c = c\<close>.
\<close>

type_synonym u64 = "64 word"

datatype ptr = Null | Ptr nat nat

datatype error = NullPointer | Dangling | OutOfBounds | InvalidDelete

fun ptr_add :: "ptr \<Rightarrow> u64 \<Rightarrow> ptr" where
  "ptr_add Null k = Null"
| "ptr_add (Ptr b off) k = Ptr b (off + unat k)"

record slice =
  m_values :: ptr
  m_size :: u64

record array =
  m_values :: ptr
  m_size :: u64
  m_capacity :: u64

record 'a machine =
  heap :: "'a option list option list"
  allocations :: nat
  deallocations :: nat
  objs :: "nat \<Rightarrow> array"

definition block :: "'a machine \<Rightarrow> nat \<Rightarrow> 'a option list option" where
  "block st b = (if b < length (heap st) then heap st ! b else None)"

text \<open>The built-in subscript \<open>p[i]\<close> on a pointer, as an rvalue and as an lvalue.\<close>

definition read_at :: "'a machine \<Rightarrow> ptr \<Rightarrow> u64 \<Rightarrow> error + 'a option" where
  "read_at st p i =
     (case ptr_add p i of
        Null \<Rightarrow> Inl NullPointer
      | Ptr b off \<Rightarrow>
          (case block st b of
             None \<Rightarrow> Inl Dangling
           | Some cells \<Rightarrow> if off < length cells then Inr (cells ! off) else Inl OutOfBounds))"

definition write_at :: "'a machine \<Rightarrow> ptr \<Rightarrow> u64 \<Rightarrow> 'a option \<Rightarrow> error + 'a machine" where
  "write_at st p i v =
     (case ptr_add p i of
        Null \<Rightarrow> Inl NullPointer
      | Ptr b off \<Rightarrow>
          (case block st b of
             None \<Rightarrow> Inl Dangling
           | Some cells \<Rightarrow>
               if off < length cells
               then Inr (st\<lparr>heap := (heap st)[b := Some (cells[off := v])]\<rparr>)
               else Inl OutOfBounds))"

text \<open>\<open>new type_t[n]\<close> and \<open>delete [] p\<close>; deleting \<open>nullptr\<close> does nothing.\<close>

definition new_array :: "'a machine \<Rightarrow> u64 \<Rightarrow> ptr \<times> 'a machine" where
  "new_array st n =
     (Ptr (length (heap st)) 0,
      st\<lparr>heap := heap st @ [Some (replicate (unat n) None)],
         allocations := Suc (allocations st)\<rparr>)"

definition delete_array :: "'a machine \<Rightarrow> ptr \<Rightarrow> error + 'a machine" where
  "delete_array st p =
     (case p of
        Null \<Rightarrow> Inr st
      | Ptr b off \<Rightarrow>
          (case block st b of
             None \<Rightarrow> Inl InvalidDelete
           | Some cells \<Rightarrow>
               if off = 0
               then Inr (st\<lparr>heap := (heap st)[b := None],
                           deallocations := Suc (deallocations st)\<rparr>)
               else Inl InvalidDelete))"

text \<open>Assignments to the three members of the object \<open>this\<close>.\<close>

definition set_values :: "'a machine \<Rightarrow> nat \<Rightarrow> ptr \<Rightarrow> 'a machine" where
  "set_values st this p = st\<lparr>objs := (objs st)(this := (objs st this)\<lparr>m_values := p\<rparr>)\<rparr>"

definition set_size :: "'a machine \<Rightarrow> nat \<Rightarrow> u64 \<Rightarrow> 'a machine" where
  "set_size st this n = st\<lparr>objs := (objs st)(this := (objs st this)\<lparr>m_size := n\<rparr>)\<rparr>"

definition set_capacity :: "'a machine \<Rightarrow> nat \<Rightarrow> u64 \<Rightarrow> 'a machine" where
  "set_capacity st this n = st\<lparr>objs := (objs st)(this := (objs st this)\<lparr>m_capacity := n\<rparr>)\<rparr>"


section \<open>The slice\<close>

text \<open>\<open>slice::operator()(start, end)\<close> is \<open>slice(m_values + start, end - start)\<close>;
  \<open>s[i]\<close> goes through the conversion of the slice to its pointer.\<close>

definition slice_call :: "slice \<Rightarrow> u64 \<Rightarrow> u64 \<Rightarrow> slice" where
  "slice_call s start end =
     \<lparr>slice.m_values = ptr_add (slice.m_values s) start, slice.m_size = end - start\<rparr>"

definition slice_size :: "slice \<Rightarrow> u64" where
  "slice_size s = slice.m_size s"

definition slice_index :: "'a machine \<Rightarrow> slice \<Rightarrow> u64 \<Rightarrow> error + 'a option" where
  "slice_index st s i = read_at st (slice.m_values s) i"


section \<open>The variable-size array\<close>

definition empty_array :: array where
  "empty_array = \<lparr>m_values = Null, m_size = 0, m_capacity = 0\<rparr>"

text \<open>The default constructor \<open>array()\<close>.\<close>

definition array_default :: "'a machine \<Rightarrow> nat \<Rightarrow> 'a machine" where
  "array_default st this = st\<lparr>objs := (objs st)(this := empty_array)\<rparr>"

definition destroy :: "'a machine \<Rightarrow> nat \<Rightarrow> bool \<Rightarrow> error + 'a machine" where
  "destroy st this use_pool =
     (if \<not> use_pool then
        (case delete_array st (m_values (objs st this)) of
           Inl e \<Rightarrow> Inl e
         | Inr st1 \<Rightarrow> Inr (set_size (set_capacity (set_values st1 this Null) this 0) this 0))
      else Inr (set_size st this 0))"

definition create :: "'a machine \<Rightarrow> nat \<Rightarrow> u64 \<Rightarrow> bool \<Rightarrow> error + 'a machine" where
  "create st this sz use_pool =
     (if (sz < m_capacity (objs st this) \<and> \<not> use_pool) \<or> sz > m_capacity (objs st this) then
        (case destroy st this False of
           Inl e \<Rightarrow> Inl e
         | Inr st1 \<Rightarrow>
             if sz > 0 then
               (case new_array st1 sz of
                  (p, st2) \<Rightarrow> Inr (set_size (set_capacity (set_values st2 this p) this sz) this sz))
             else Inr st1)
      else Inr st)"

definition array_size :: "'a machine \<Rightarrow> nat \<Rightarrow> u64" where
  "array_size st this = m_size (objs st this)"

definition array_index :: "'a machine \<Rightarrow> nat \<Rightarrow> u64 \<Rightarrow> error + 'a option" where
  "array_index st this i = read_at st (m_values (objs st this)) i"

definition array_assign_element :: "'a machine \<Rightarrow> nat \<Rightarrow> u64 \<Rightarrow> 'a \<Rightarrow> error + 'a machine" where
  "array_assign_element st this i v = write_at st (m_values (objs st this)) i (Some v)"

text \<open>
  The private member \<open>copy(values, size, use_pool)\<close>, at \<open>type2_t = type_t\<close>: it calls
  \<open>create\<close> and then runs \<open>for (i = 0; i < m_size; ++i) m_values[i] = values[i]\<close>.
  The loop reads the members of \<open>this\<close> anew in every round.
\<close>

function copy_loop :: "'a machine \<Rightarrow> nat \<Rightarrow> ptr \<Rightarrow> u64 \<Rightarrow> error + 'a machine" where
  "copy_loop st this values i =
     (if i < m_size (objs st this) then
        (case read_at st values i of
           Inl e \<Rightarrow> Inl e
         | Inr v \<Rightarrow>
             (case write_at st (m_values (objs st this)) i v of
                Inl e \<Rightarrow> Inl e
              | Inr st' \<Rightarrow> copy_loop st' this values (i + 1)))
      else Inr st)"
  by pat_completeness auto
termination
proof (relation "measure (\<lambda>(st, this, values, i). unat (m_size (objs st this)) - unat i)")
  show "wf (measure (\<lambda>(st, this, values, i). unat (m_size (objs st this)) - unat i))"
    by simp
next
  fix st :: "'a machine" and this :: nat and "values" :: ptr and i :: u64
    and v :: "'a option" and st' :: "'a machine"
  assume less: "i < m_size (objs st this)"
    and wr: "write_at st (m_values (objs st this)) i v = Inr st'"
  from wr have same: "objs st' = objs st"
    by (auto simp: write_at_def split: ptr.splits option.splits if_splits)
  from less have "unat i < unat (m_size (objs st this))"
    by (simp add: word_less_nat_alt)
  moreover have "unat (m_size (objs st this)) < 2 ^ LENGTH(64)"
    by (rule unsigned_less)
  with less have "unat i + unat (1::u64) < 2 ^ LENGTH(64)"
    by (simp add: word_less_nat_alt)
  then have "unat (i + 1) = unat i + unat (1::u64)"
    by (simp only: unat_add_lem)
  ultimately show "((st', this, values, i + 1), (st, this, values, i))
      \<in> measure (\<lambda>(st, this, values, i). unat (m_size (objs st this)) - unat i)"
    using same by simp
qed

declare copy_loop.simps [simp del]

definition copy :: "'a machine \<Rightarrow> nat \<Rightarrow> ptr \<Rightarrow> u64 \<Rightarrow> bool \<Rightarrow> error + 'a machine" where
  "copy st this values sz use_pool =
     (case create st this sz use_pool of
        Inl e \<Rightarrow> Inl e
      | Inr st1 \<Rightarrow> copy_loop st1 this values 0)"

text \<open>\<open>operator=(const array<type_t> &arr)\<close> is \<open>copy(arr, arr.size(), true)\<close>, where
  \<open>arr\<close> converts to its \<open>m_values\<close>; both arguments are evaluated before the call.\<close>

definition copy_assign :: "'a machine \<Rightarrow> nat \<Rightarrow> nat \<Rightarrow> error + 'a machine" where
  "copy_assign st this arr = copy st this (m_values (objs st arr)) (array_size st arr) True"

text \<open>\<open>operator=(array<type_t> &&arr)\<close>: six member assignments in the order of the
  source, each reading the store as the previous one left it.\<close>

definition move_assign :: "'a machine \<Rightarrow> nat \<Rightarrow> nat \<Rightarrow> error + 'a machine" where
  "move_assign st this arr =
     (case (if m_values (objs st this) \<noteq> m_values (objs st arr)
            then destroy st this False else Inr st) of
        Inl e \<Rightarrow> Inl e
      | Inr st1 \<Rightarrow>
          (let st2 = set_values st1 this (m_values (objs st1 arr));
               st3 = set_size st2 this (m_size (objs st2 arr));
               st4 = set_capacity st3 this (m_capacity (objs st3 arr));
               st5 = set_values st4 arr Null;
               st6 = set_size st5 arr 0
           in Inr (set_capacity st6 arr 0)))"

text \<open>The move constructor \<open>array(array<type_t> &&arr)\<close>: the member initialisers, then
  the body.\<close>

definition move_construct :: "'a machine \<Rightarrow> nat \<Rightarrow> nat \<Rightarrow> 'a machine" where
  "move_construct st this arr =
     (let st1 = set_values st this (m_values (objs st arr));
          st2 = set_size st1 this (m_size (objs st1 arr));
          st3 = set_capacity st2 this (m_capacity (objs st2 arr));
          st4 = set_values st3 arr Null;
          st5 = set_size st4 arr 0
      in set_capacity st5 arr 0)"


section \<open>The state invariant and the states used for evaluation\<close>

text \<open>The invariant of the data model: \<open>size \<le> capacity\<close>; with a positive capacity
  \<open>m_values\<close> is the start of a live block of exactly \<open>capacity\<close> elements; with capacity
  zero \<open>m_values\<close> is null and the size is zero.\<close>

definition array_inv :: "'a machine \<Rightarrow> nat \<Rightarrow> bool" where
  "array_inv st this =
     (m_size (objs st this) \<le> m_capacity (objs st this) \<and>
      (if m_capacity (objs st this) > 0 then
         (case m_values (objs st this) of
            Null \<Rightarrow> False
          | Ptr b off \<Rightarrow>
              off = 0 \<and>
              (case block st b of
                 None \<Rightarrow> False
               | Some cells \<Rightarrow> length cells = unat (m_capacity (objs st this))))
       else m_values (objs st this) = Null \<and> m_size (objs st this) = 0))"

text \<open>An empty free store in which every object is a default-constructed array.\<close>

definition initial :: "'a machine" where
  "initial = \<lparr>heap = [], allocations = 0, deallocations = 0, objs = (\<lambda>_. empty_array)\<rparr>"

text \<open>Sequencing of calls that may fail, and what a test observes of an object: its
  three members and the numbers of \<open>new[]\<close> and \<open>delete[]\<close> calls so far.\<close>

definition and_then :: "error + 'a machine \<Rightarrow> ('a machine \<Rightarrow> error + 'a machine) \<Rightarrow> error + 'a machine" where
  "and_then r f = (case r of Inl e \<Rightarrow> Inl e | Inr st \<Rightarrow> f st)"

definition observe :: "nat \<Rightarrow> error + 'a machine \<Rightarrow> error + (array \<times> nat \<times> nat)" where
  "observe this r =
     (case r of Inl e \<Rightarrow> Inl e | Inr st \<Rightarrow> Inr (objs st this, allocations st, deallocations st))"

text \<open>What the copy loop needs of its source: nothing when \<open>n\<close> is zero, else the start
  of a live block of at least \<open>n\<close> elements.\<close>

definition readable :: "'a machine \<Rightarrow> ptr \<Rightarrow> u64 \<Rightarrow> bool" where
  "readable st p n =
     (n = 0 \<or> (case p of Null \<Rightarrow> False
               | Ptr b off \<Rightarrow> off = 0 \<and>
                   (case block st b of None \<Rightarrow> False | Some cells \<Rightarrow> unat n \<le> length cells)))"

text \<open>The invariant of a slice in the data model: null with length zero, or a pointer
  into a live block with at least \<open>m_size\<close> elements from the pointer on.\<close>

definition slice_valid :: "'a machine \<Rightarrow> slice \<Rightarrow> bool" where
  "slice_valid st s =
     (case slice.m_values s of
        Null \<Rightarrow> slice.m_size s = 0
      | Ptr b off \<Rightarrow>
          (case block st b of
             None \<Rightarrow> False
           | Some cells \<Rightarrow> off + unat (slice.m_size s) \<le> length cells))"

text \<open>Two arrays of \<open>nat\<close>: object 0 holds 10, 20, 30 and object 1 holds 7, 8, each
  with its capacity equal to its size; and the slice over all of object 0.\<close>

definition two_arrays :: "nat machine" where
  "two_arrays =
     \<lparr>heap = [Some [Some 10, Some 20, Some 30], Some [Some 7, Some 8]],
      allocations = 2, deallocations = 0,
      objs = (\<lambda>_. empty_array)
        (0 := \<lparr>m_values = Ptr 0 0, m_size = 3, m_capacity = 3\<rparr>,
         Suc 0 := \<lparr>m_values = Ptr (Suc 0) 0, m_size = 2, m_capacity = 2\<rparr>)\<rparr>"

definition whole_slice :: slice where
  "whole_slice = \<lparr>slice.m_values = Ptr 0 0, slice.m_size = 3\<rparr>"

text \<open>Call sequences on object 0 (and object 1) of the initial machine.\<close>

definition filled :: "nat \<Rightarrow> nat \<Rightarrow> nat \<Rightarrow> nat \<Rightarrow> nat machine \<Rightarrow> error + nat machine" where
  "filled this x y z st =
     and_then (and_then (array_assign_element st this 0 x)
       (\<lambda>st. array_assign_element st this 1 y)) (\<lambda>st. array_assign_element st this 2 z)"

text \<open>\<open>create(100, true); create(50, true); create(75, true)\<close>\<close>

definition pool_scenario :: "error + nat machine" where
  "pool_scenario =
     and_then (and_then (create initial 0 100 True) (\<lambda>st. create st 0 50 True))
       (\<lambda>st. create st 0 75 True)"

text \<open>\<open>create(3, true); create(0, true)\<close>\<close>

definition create_zero_scenario :: "error + nat machine" where
  "create_zero_scenario = and_then (create initial 0 3 True) (\<lambda>st. create st 0 0 True)"

text \<open>\<open>c.create(3, true); c = move(c)\<close>\<close>

definition self_move_scenario :: "error + nat machine" where
  "self_move_scenario = and_then (create initial 0 3 True) (\<lambda>st. move_assign st 0 0)"

text \<open>\<open>create(100, true); create(50, true); destroy(true)\<close>\<close>

definition pooled_destroy_scenario :: "error + nat machine" where
  "pooled_destroy_scenario =
     and_then (and_then (create initial 0 100 True) (\<lambda>st. create st 0 50 True))
       (\<lambda>st. destroy st 0 True)"

text \<open>\<open>d.create(3); d = {1, 2, 3}; c.create(2); c = {7, 8}; d = c\<close>\<close>

definition copy_shrink_scenario :: "error + nat machine" where
  "copy_shrink_scenario =
     and_then (and_then (and_then (and_then (and_then
       (create initial 0 3 True) (filled 0 1 2 3))
       (\<lambda>st. create st 1 2 True))
       (\<lambda>st. array_assign_element st 1 0 7))
       (\<lambda>st. array_assign_element st 1 1 8))
       (\<lambda>st. copy_assign st 0 1)"

text \<open>\<open>d.create(3); d = {1, 2, 3}; c.create(3); c = {7, 8, 9}; c.destroy(true); d = c\<close>\<close>

definition copy_pooled_scenario :: "error + nat machine" where
  "copy_pooled_scenario =
     and_then (and_then (and_then (and_then (and_then
       (create initial 0 3 True) (filled 0 1 2 3))
       (\<lambda>st. create st 1 3 True))
       (filled 1 7 8 9))
       (\<lambda>st. destroy st 1 True))
       (\<lambda>st. copy_assign st 0 1)"


section \<open>Member assignments, allocation and release\<close>

lemmas field_defs = set_values_def set_size_def set_capacity_def

lemma block_set [simp]:
  "block (set_values st t p) = block st"
  "block (set_size st t n) = block st"
  "block (set_capacity st t n) = block st"
  by (simp_all add: field_defs block_def fun_eq_iff)

lemma objs_set [simp]:
  "objs (set_values st t p) = (objs st)(t := (objs st t)\<lparr>m_values := p\<rparr>)"
  "objs (set_size st t n) = (objs st)(t := (objs st t)\<lparr>m_size := n\<rparr>)"
  "objs (set_capacity st t n) = (objs st)(t := (objs st t)\<lparr>m_capacity := n\<rparr>)"
  by (simp_all add: field_defs)

lemma counters_set [simp]:
  "allocations (set_values st t p) = allocations st"
  "allocations (set_size st t n) = allocations st"
  "allocations (set_capacity st t n) = allocations st"
  "deallocations (set_values st t p) = deallocations st"
  "deallocations (set_size st t n) = deallocations st"
  "deallocations (set_capacity st t n) = deallocations st"
  "heap (set_values st t p) = heap st"
  "heap (set_size st t n) = heap st"
  "heap (set_capacity st t n) = heap st"
  by (simp_all add: field_defs)

lemma default_inv: "array_inv (array_default st this) this"
  by (simp add: array_inv_def array_default_def empty_array_def)

lemma inv_cases:
  assumes "array_inv st this"
  obtains (null) "m_values (objs st this) = Null" "m_capacity (objs st this) = 0"
      "m_size (objs st this) = 0"
  | (live) b cells where "m_values (objs st this) = Ptr b 0" "block st b = Some cells"
      "length cells = unat (m_capacity (objs st this))" "0 < m_capacity (objs st this)"
      "m_size (objs st this) \<le> m_capacity (objs st this)"
  using assms
  by (auto simp: array_inv_def word_gt_0 split: if_splits ptr.splits option.splits)

lemma block_delete:
  "block st b = Some cells \<Longrightarrow>
   block (st\<lparr>heap := (heap st)[b := None], deallocations := d\<rparr>) b' =
     (if b' = b then None else block st b')"
  by (auto simp: block_def split: if_splits)

lemma destroy_False_result:
  assumes "array_inv st this"
  shows "\<exists>st'. destroy st this False = Inr st' \<and> objs st' = (objs st)(this := empty_array)
     \<and> length (heap st') = length (heap st)
     \<and> allocations st' = allocations st
     \<and> (\<forall>b. block st' b = (if m_values (objs st this) = Ptr b 0 then None else block st b))"
  using assms
proof (cases rule: inv_cases)
  case null
  then show ?thesis
    by (simp add: destroy_def delete_array_def empty_array_def fun_eq_iff)
next
  case (live b cells)
  then show ?thesis
    by (auto simp add: destroy_def delete_array_def empty_array_def block_delete fun_eq_iff)
qed

lemma destroy_inv:
  assumes "array_inv st this"
  shows "\<exists>st'. destroy st this p = Inr st' \<and> array_inv st' this"
proof (cases p)
  case True
  with assms show ?thesis
    by (cases rule: inv_cases) (simp_all add: destroy_def array_inv_def)
next
  case False
  from destroy_False_result[OF assms] obtain st' where
    "destroy st this False = Inr st'" "objs st' = (objs st)(this := empty_array)" by blast
  with False show ?thesis by (simp add: array_inv_def empty_array_def)
qed

lemma block_new:
  "block (snd (new_array st n)) b =
     (if b = length (heap st) then Some (replicate (unat n) None) else block st b)"
  by (simp add: new_array_def block_def nth_append)

lemma create_inv:
  assumes "array_inv st this"
  shows "\<exists>st'. create st this n p = Inr st' \<and> array_inv st' this"
proof (cases "(n < m_capacity (objs st this) \<and> \<not> p) \<or> n > m_capacity (objs st this)")
  case False
  with assms show ?thesis by (auto simp: create_def)
next
  case True
  from destroy_False_result[OF assms] obtain st1 where
    d: "destroy st this False = Inr st1" and e: "objs st1 = (objs st)(this := empty_array)" by blast
  show ?thesis
  proof (cases "n > 0")
    case False
    with True d e show ?thesis
      by (simp add: create_def array_inv_def empty_array_def)
  next
    case n: True
    obtain q st2 where new: "new_array st1 n = (q, st2)" by (cases "new_array st1 n")
    then have q: "q = Ptr (length (heap st1)) 0" by (simp add: new_array_def)
    from new block_new[of st1 n] have b: "block st2 (length (heap st1)) = Some (replicate (unat n) None)"
      by simp
    from True d n new show ?thesis
      by (simp add: create_def array_inv_def q b)
  qed
qed


section \<open>The copy loop\<close>

lemma live_length:
  "(case x of None \<Rightarrow> False | Some cells \<Rightarrow> length cells = k) = (map_option length x = Some k)"
  by (cases x) auto

lemma array_inv_shape:
  assumes "objs st' = objs st"
    and "\<And>b. map_option length (block st' b) = map_option length (block st b)"
  shows "array_inv st' t = array_inv st t"
  using assms by (simp add: array_inv_def live_length split: ptr.splits)

lemma write_at_shape:
  assumes "write_at st p i v = Inr st'"
  shows "objs st' = objs st" "allocations st' = allocations st"
    "deallocations st' = deallocations st"
    "map_option length (block st' b) = map_option length (block st b)"
  using assms
  by (auto simp: write_at_def block_def nth_list_update
      split: ptr.splits option.splits if_splits)

lemma copy_loop_shape:
  "copy_loop st this values i = Inr st' \<Longrightarrow>
     objs st' = objs st \<and> allocations st' = allocations st \<and>
     deallocations st' = deallocations st \<and>
     (\<forall>b. map_option length (block st' b) = map_option length (block st b))"
proof (induction st this "values" i rule: copy_loop.induct)
  case (1 st this "values" i)
  show ?case
  proof (cases "i < m_size (objs st this)")
    case False
    with "1.prems" show ?thesis by (simp add: copy_loop.simps)
  next
    case True
    with "1.prems" obtain v st1 where
      r: "read_at st values i = Inr v" and
      w: "write_at st (m_values (objs st this)) i v = Inr st1" and
      l: "copy_loop st1 this values (i + 1) = Inr st'"
      by (subst (asm) copy_loop.simps) (auto split: sum.splits)
    from "1.IH"[OF True r w l] write_at_shape[OF w] show ?thesis by simp
  qed
qed

lemma readable_shape:
  assumes "\<And>b. map_option length (block st' b) = map_option length (block st b)"
  shows "readable st' p n = readable st p n"
proof -
  have "(case block st' b of None \<Rightarrow> False | Some cells \<Rightarrow> unat n \<le> length cells) =
        (case block st b of None \<Rightarrow> False | Some cells \<Rightarrow> unat n \<le> length cells)" for b
    using assms[of b] by (cases "block st' b"; cases "block st b") auto
  then show ?thesis by (simp add: readable_def split: ptr.splits)
qed

lemma read_at_readable:
  assumes "readable st p n" "i < n"
  shows "\<exists>v. read_at st p i = Inr v"
  using assms
  by (auto simp: readable_def read_at_def word_less_nat_alt
      split: ptr.splits option.splits)

lemma write_at_inv:
  assumes "array_inv st this" "i < m_size (objs st this)"
  shows "\<exists>st'. write_at st (m_values (objs st this)) i v = Inr st'"
  using assms(1)
proof (cases rule: inv_cases)
  case null
  with assms(2) show ?thesis by simp
next
  case (live b cells)
  with assms(2) have "unat i < length cells"
    by (simp add: word_less_nat_alt word_le_nat_alt)
  with live show ?thesis by (simp add: write_at_def)
qed

lemma copy_loop_defined:
  "array_inv st this \<Longrightarrow> readable st values (m_size (objs st this)) \<Longrightarrow>
     \<exists>st'. copy_loop st this values i = Inr st'"
proof (induction st this "values" i rule: copy_loop.induct)
  case (1 st this "values" i)
  show ?case
  proof (cases "i < m_size (objs st this)")
    case False
    then show ?thesis by (simp add: copy_loop.simps)
  next
    case True
    from read_at_readable[OF "1.prems"(2) True] obtain v where
      r: "read_at st values i = Inr v" by blast
    from write_at_inv[OF "1.prems"(1) True] obtain st1 where
      w: "write_at st (m_values (objs st this)) i v = Inr st1" by blast
    note s = write_at_shape[OF w]
    have "array_inv st1 this"
      using "1.prems"(1) array_inv_shape[of st1 st this] s by simp
    moreover have "readable st1 values (m_size (objs st1 this))"
      using "1.prems"(2) readable_shape[of st1 st "values"] s by simp
    ultimately obtain st' where "copy_loop st1 this values (i + 1) = Inr st'"
      using "1.IH"[OF True r w] by blast
    with True r w show ?thesis
      by (subst copy_loop.simps) simp
  qed
qed

lemma copy_loop_self:
  "array_inv st this \<Longrightarrow> copy_loop st this (m_values (objs st this)) i = Inr st"
proof (induction st this "m_values (objs st this)" i rule: copy_loop.induct)
  case (1 st this i)
  show ?case
  proof (cases "i < m_size (objs st this)")
    case False
    then show ?thesis by (simp add: copy_loop.simps)
  next
    case True
    from "1.prems" show ?thesis
    proof (cases rule: inv_cases)
      case null
      with True show ?thesis by simp
    next
      case (live b cells)
      with True have lt: "unat i < length cells"
        by (simp add: word_less_nat_alt word_le_nat_alt)
      from live have b: "b < length (heap st)" "heap st ! b = Some cells"
        by (auto simp: block_def split: if_splits)
      have r: "read_at st (m_values (objs st this)) i = Inr (cells ! unat i)"
        using live lt by (simp add: read_at_def)
      have w: "write_at st (m_values (objs st this)) i (cells ! unat i) = Inr st"
        using live lt b by (simp add: write_at_def list_update_same_conv)
      from "1.hyps"[OF True r w] "1.prems"
      have "copy_loop st this (m_values (objs st this)) (i + 1) = Inr st" by simp
      with True r w show ?thesis by (subst copy_loop.simps) simp
    qed
  qed
qed


section \<open>Creation and copy assignment\<close>

lemma create_noop:
  "sz \<le> m_capacity (objs st this) \<Longrightarrow> use_pool \<or> sz = m_capacity (objs st this) \<Longrightarrow>
   create st this sz use_pool = Inr st"
  by (auto simp: create_def)

lemma create_realloc:
  assumes "array_inv st this"
    and "(n < m_capacity (objs st this) \<and> \<not> p) \<or> n > m_capacity (objs st this)"
  shows "\<exists>st'. create st this n p = Inr st' \<and>
     objs st' = (objs st)(this :=
        (if n > 0 then \<lparr>m_values = Ptr (length (heap st)) 0, m_size = n, m_capacity = n\<rparr>
         else empty_array)) \<and>
     allocations st' = (if n > 0 then Suc (allocations st) else allocations st) \<and>
     (\<forall>b. block st' b =
        (if n > 0 \<and> b = length (heap st) then Some (replicate (unat n) None)
         else if m_values (objs st this) = Ptr b 0 then None else block st b))"
proof -
  from destroy_False_result[OF assms(1)] obtain st1 where
    d: "destroy st this False = Inr st1" and e: "objs st1 = (objs st)(this := empty_array)"
    and l: "length (heap st1) = length (heap st)" and a: "allocations st1 = allocations st"
    and b: "\<And>b. block st1 b = (if m_values (objs st this) = Ptr b 0 then None else block st b)"
    by blast
  show ?thesis
  proof (cases "n > 0")
    case False
    with assms(2) d e a b show ?thesis by (simp add: create_def)
  next
    case True
    obtain q st2 where new: "new_array st1 n = (q, st2)" by (cases "new_array st1 n")
    then have q: "q = Ptr (length (heap st)) 0" and a2: "allocations st2 = Suc (allocations st)"
      and o2: "objs st2 = objs st1"
      using l a by (auto simp: new_array_def)
    from new block_new[of st1 n] l
    have b2: "\<And>b. block st2 b = (if b = length (heap st) then Some (replicate (unat n) None) else block st1 b)"
      by simp
    from assms(2) d True new show ?thesis
      by (simp add: create_def q a2 o2 e b2 b empty_array_def fun_eq_iff)
  qed
qed

lemma live_in_heap: "block st b = Some cells \<Longrightarrow> b < length (heap st)"
  by (auto simp: block_def split: if_splits)

lemma create_other_inv:
  assumes t: "array_inv st this" and a: "array_inv st arr"
    and c: "create st this n p = Inr st'"
    and own: "this = arr \<or> m_values (objs st this) \<noteq> m_values (objs st arr)
               \<or> m_values (objs st this) = Null"
  shows "array_inv st' arr \<and>
     (\<forall>b off. m_values (objs st arr) = Ptr b off \<and> this \<noteq> arr \<longrightarrow> block st' b = block st b)"
proof (cases "(n < m_capacity (objs st this) \<and> \<not> p) \<or> n > m_capacity (objs st this)")
  case False
  with c a show ?thesis by (auto simp: create_def)
next
  case True
  show ?thesis
  proof (cases "this = arr")
    case True
    from create_inv[OF t, of n p] c True show ?thesis by auto
  next
    case False
    from create_realloc[OF t True] c have
      o: "objs st' arr = objs st arr" and
      b: "\<And>b. block st' b =
        (if n > 0 \<and> b = length (heap st) then Some (replicate (unat n) None)
         else if m_values (objs st this) = Ptr b 0 then None else block st b)"
      using False by auto
    from a show ?thesis
    proof (cases rule: inv_cases)
      case null
      with o show ?thesis by (simp add: array_inv_def)
    next
      case (live ba cells)
      from live(2) have "ba < length (heap st)" by (rule live_in_heap)
      moreover from own False live(1) have "m_values (objs st this) \<noteq> Ptr ba 0" by auto
      ultimately have "block st' ba = block st ba" by (simp add: b)
      with live o a show ?thesis by (simp add: array_inv_def)
    qed
  qed
qed

lemma inv_shared_capacity:
  assumes "array_inv st this" "array_inv st arr"
    "m_values (objs st this) = m_values (objs st arr)"
  shows "m_capacity (objs st this) = m_capacity (objs st arr)"
  using assms(1)
proof (cases rule: inv_cases)
  case null
  with assms(2,3) show ?thesis by (cases rule: inv_cases) auto
next
  case (live b cells)
  with assms(2,3) show ?thesis by (cases rule: inv_cases) (auto simp: word_unat_eq_iff)
qed

lemma copy_assign_inv:
  assumes t: "array_inv st this" and a: "array_inv st arr"
    and c: "copy_assign st this arr = Inr st'"
  shows "array_inv st' this \<and> array_inv st' arr"
proof -
  from c obtain st1 where cr: "create st this (m_size (objs st arr)) True = Inr st1"
    and lp: "copy_loop st1 this (m_values (objs st arr)) 0 = Inr st'"
    by (auto simp: copy_assign_def copy_def array_size_def split: sum.splits)
  from create_inv[OF t, of "m_size (objs st arr)" True] cr have t1: "array_inv st1 this" by simp
  have a1: "array_inv st1 arr"
  proof (cases "m_size (objs st arr) \<le> m_capacity (objs st this)")
    case True
    with cr a show ?thesis by (simp add: create_noop)
  next
    case False
    have "m_values (objs st this) \<noteq> m_values (objs st arr) \<or> m_values (objs st this) = Null"
    proof (rule ccontr)
      assume "\<not> ?thesis"
      then have "m_values (objs st this) = m_values (objs st arr)" by simp
      from inv_shared_capacity[OF t a this] a False show False
        by (simp add: array_inv_def)
    qed
    with create_other_inv[OF t a cr] show ?thesis by blast
  qed
  from copy_loop_shape[OF lp] array_inv_shape[of st' st1] t1 a1 show ?thesis by simp
qed

lemma inv_readable:
  assumes "array_inv st arr" "n \<le> m_capacity (objs st arr)"
  shows "readable st (m_values (objs st arr)) n"
  using assms(1)
proof (cases rule: inv_cases)
  case null
  with assms(2) show ?thesis by (simp add: readable_def)
next
  case (live b cells)
  with assms(2) show ?thesis by (simp add: readable_def word_le_nat_alt)
qed

lemma copy_assign_defined:
  assumes t: "array_inv st this" and a: "array_inv st arr"
    and fit: "m_capacity (objs st this) < m_size (objs st arr) \<or>
              m_size (objs st this) \<le> m_capacity (objs st arr)"
  shows "\<exists>st'. copy_assign st this arr = Inr st'"
proof -
  from create_inv[OF t, of "m_size (objs st arr)" True] obtain st1 where
    cr: "create st this (m_size (objs st arr)) True = Inr st1" and t1: "array_inv st1 this"
    by blast
  have "readable st1 (m_values (objs st arr)) (m_size (objs st1 this))"
  proof (cases "m_size (objs st arr) \<le> m_capacity (objs st this)")
    case True
    with cr have "st1 = st" by (simp add: create_noop)
    with True fit inv_readable[OF a] show ?thesis by auto
  next
    case False
    then have gt: "m_capacity (objs st this) < m_size (objs st arr)" by simp
    have ne: "this \<noteq> arr" using gt a by (auto simp: array_inv_def)
    have own: "m_values (objs st this) \<noteq> m_values (objs st arr) \<or> m_values (objs st this) = Null"
    proof (rule ccontr)
      assume "\<not> ?thesis"
      then have "m_values (objs st this) = m_values (objs st arr)" by simp
      from inv_shared_capacity[OF t a this] a False show False
        by (simp add: array_inv_def)
    qed
    from create_other_inv[OF t a cr] own ne have a1: "array_inv st1 arr"
      and o: "\<And>b off. m_values (objs st arr) = Ptr b off \<Longrightarrow> block st1 b = block st b"
      by blast+
    from create_realloc[OF t, of "m_size (objs st arr)" True] gt cr ne
    have s1: "m_size (objs st1 this) = m_size (objs st arr)"
      by (auto simp: word_gt_0 empty_array_def)
    have "readable st1 (m_values (objs st arr)) (m_size (objs st arr)) =
          readable st (m_values (objs st arr)) (m_size (objs st arr))"
      using o by (cases "m_values (objs st arr)") (simp_all add: readable_def)
    with inv_readable[OF a, of "m_size (objs st arr)"] a s1 show ?thesis
      by (simp add: array_inv_def)
  qed
  from copy_loop_defined[OF t1 this, of 0] cr show ?thesis
    by (auto simp: copy_assign_def copy_def array_size_def)
qed

lemma copy_assign_self:
  assumes "array_inv st c"
  shows "copy_assign st c c = Inr st"
proof -
  from assms have "m_size (objs st c) \<le> m_capacity (objs st c)" by (simp add: array_inv_def)
  then have "create st c (m_size (objs st c)) True = Inr st" by (simp add: create_noop)
  with copy_loop_self[OF assms, of 0] show ?thesis
    by (simp add: copy_assign_def copy_def array_size_def)
qed

lemma move_construct_result:
  assumes "this \<noteq> arr"
  shows "objs (move_construct st this arr) = (objs st)(this := objs st arr, arr := empty_array)"
    "heap (move_construct st this arr) = heap st"
    "block (move_construct st this arr) = block st"
    "allocations (move_construct st this arr) = allocations st"
    "deallocations (move_construct st this arr) = deallocations st"
  using assms by (auto simp: move_construct_def Let_def empty_array_def fun_eq_iff)

lemma move_construct_self:
  "objs (move_construct st c c) = (objs st)(c := empty_array)"
  by (auto simp: move_construct_def Let_def empty_array_def fun_eq_iff)

lemma all_members:
  "(r::array)\<lparr>m_values := p, m_size := s, m_capacity := c\<rparr> =
     \<lparr>m_values = p, m_size = s, m_capacity = c\<rparr>"
  by (cases r) simp

lemma move_assign_self:
  "move_assign st c c = Inr (st\<lparr>objs := (objs st)(c := empty_array)\<rparr>)"
  by (simp add: move_assign_def Let_def empty_array_def field_defs all_members)

lemma move_assign_result:
  assumes ne: "this \<noteq> arr" and t: "array_inv st this" and a: "array_inv st arr"
  shows "\<exists>st'. move_assign st this arr = Inr st' \<and>
     objs st' = (objs st)(this := objs st arr, arr := empty_array) \<and>
     allocations st' = allocations st \<and>
     (\<forall>b off. m_values (objs st arr) = Ptr b off \<longrightarrow> block st' b = block st b)"
proof (cases "m_values (objs st this) \<noteq> m_values (objs st arr)")
  case False
  with ne show ?thesis
    by (auto simp: move_assign_def Let_def empty_array_def fun_eq_iff)
next
  case True
  from destroy_False_result[OF t] obtain st1 where
    d: "destroy st this False = Inr st1" and e: "objs st1 = (objs st)(this := empty_array)"
    and al: "allocations st1 = allocations st"
    and b: "\<And>b. block st1 b = (if m_values (objs st this) = Ptr b 0 then None else block st b)"
    by blast
  have keep: "block st1 b = block st b" if "m_values (objs st arr) = Ptr b off" for b off
    using a
  proof (cases rule: inv_cases)
    case null
    with that show ?thesis by simp
  next
    case (live ba cells)
    with that True show ?thesis by (auto simp: b)
  qed
  from True d ne e al keep show ?thesis
    by (auto simp: move_assign_def Let_def empty_array_def fun_eq_iff)
qed

lemma read_at_block:
  assumes "\<And>b off. p = Ptr b off \<Longrightarrow> block st' b = block st b"
  shows "read_at st' p i = read_at st p i"
  using assms by (cases p) (simp_all add: read_at_def)

lemma array_inv_moved:
  assumes "array_inv st arr" "objs st' this = objs st arr"
    "\<And>b off. m_values (objs st arr) = Ptr b off \<Longrightarrow> block st' b = block st b"
  shows "array_inv st' this"
  using assms(1)
proof (cases rule: inv_cases)
  case null
  with assms(2) show ?thesis by (simp add: array_inv_def)
next
  case (live b cells)
  with assms(2) assms(3)[of b 0] show ?thesis by (simp add: array_inv_def)
qed

lemma array_inv_empty: "objs st this = empty_array \<Longrightarrow> array_inv st this"
  by (simp add: array_inv_def empty_array_def)

lemma two_arrays_inv: "array_inv two_arrays 0" "array_inv two_arrays (Suc 0)"
  by (simp_all add: array_inv_def two_arrays_def block_def)

lemma narrow_offset:
  assumes "(a::u64) \<le> b" "i < b - a"
  shows "unat (a + i) = unat a + unat i"
proof -
  from assms(1) have "unat (b - a) = unat b - unat a" by (simp add: unat_sub)
  with assms(2) have "unat i < unat b - unat a" by (simp add: word_less_nat_alt)
  moreover have "unat b < 2 ^ LENGTH(64)" by (rule unsigned_less)
  ultimately have "unat a + unat i < 2 ^ LENGTH(64)" by simp
  then show ?thesis by (simp only: unat_add_lem)
qed


section \<open>The claims\<close>

text \<open>
  \<^bold>\<open>C1.\<close> The claim: with capacity \<open>C\<close> and \<open>0 < n \<le> C\<close>, \<open>create(n, true)\<close> reuses
  the buffer without allocating, sets the size to \<open>n\<close> and keeps the capacity; from an
  empty array \<open>create(100, true)\<close>, \<open>create(50, true)\<close>, \<open>create(75, true)\<close> allocate
  once and end with size 75 and capacity 100.
  The code at that input: one allocation, no release, capacity 100, and the size is still
  100. The pooled call enters no branch of \<open>create\<close>, so \<open>m_size\<close> keeps the value of the
  last allocation.
\<close>

theorem create_pool_keeps_old_size:
  "observe 0 pool_scenario =
     Inr (\<lparr>m_values = Ptr 0 0, m_size = 100, m_capacity = 100\<rparr>, 1, 0)"
  by code_simp

text \<open>
  \<^bold>\<open>C2.\<close> The claim: after the copy assignment \<open>d = c\<close> the sizes agree, \<open>d[i]\<close> equals
  \<open>c[i]\<close> below that size, and the two arrays do not share elements.
  The code at two inputs where \<open>c.size()\<close> is below the capacity of \<open>d\<close>: with \<open>d\<close> of
  three elements and \<open>c\<close> of two, \<open>create\<close> changes nothing, the loop runs to the old
  size 3 and reads \<open>c[2]\<close> outside the block of \<open>c\<close>; with \<open>c\<close> pooled down to size 0 over
  a block of three, \<open>d\<close> ends with size 3 while \<open>c\<close> has size 0.
\<close>

theorem copy_assign_keeps_old_size:
  "observe 0 copy_shrink_scenario = Inl OutOfBounds \<and>
   observe 0 copy_pooled_scenario =
     Inr (\<lparr>m_values = Ptr 0 0, m_size = 3, m_capacity = 3\<rparr>, 2, 0) \<and>
   observe 1 copy_pooled_scenario =
     Inr (\<lparr>m_values = Ptr 1 0, m_size = 0, m_capacity = 3\<rparr>, 2, 0)"
  by code_simp

text \<open>
  \<^bold>\<open>C3.\<close> The claim: \<open>create(0, true)\<close> sets the size to 0 and leaves the pointer and the
  capacity as they are.
  The code on an array of size 3 and capacity 3: pointer and capacity stay, nothing is
  allocated or released, and the size is still 3.
\<close>

theorem create_zero_pool_keeps_size:
  "observe 0 create_zero_scenario =
     Inr (\<lparr>m_values = Ptr 0 0, m_size = 3, m_capacity = 3\<rparr>, 1, 0)"
  by code_simp

text \<open>
  \<^bold>\<open>C4.\<close> The claim: the self move assignment \<open>c = move(c)\<close> leaves pointer, size and
  capacity of \<open>c\<close> as they were.
  The code on an array of size 3: the guard skips \<open>destroy\<close>, the members are assigned to
  themselves and then reset through \<open>arr\<close>, which is \<open>c\<close>; \<open>c\<close> ends empty, and its block
  was never released (one allocation, no release).
\<close>

theorem self_move_empties:
  "observe 0 self_move_scenario = Inr (empty_array, 1, 0)"
  by code_simp

text \<open>
  \<^bold>\<open>C5.\<close> The claim: \<open>destroy(false)\<close> releases the buffer and zeroes the three members;
  \<open>destroy(true)\<close> only sets the size to 0; so after \<open>create(n, _)\<close> and \<open>destroy(true)\<close>
  the size is 0 and the capacity is \<open>n\<close>, and \<open>create(m, true)\<close> with \<open>m \<le> n\<close> allocates
  nothing.
  As stated for every array it fails: on an array of capacity 100, \<open>create(50, true)\<close> and
  \<open>destroy(true)\<close> end with capacity 100, since a pooled \<open>create\<close> below the capacity
  keeps the block.
\<close>

theorem destroy_pool_capacity_counterexample:
  "observe 0 pooled_destroy_scenario =
     Inr (\<lparr>m_values = Ptr 0 0, m_size = 0, m_capacity = 100\<rparr>, 1, 0) \<and>
   observe 0 pooled_destroy_scenario \<noteq>
     Inr (\<lparr>m_values = Ptr 0 0, m_size = 0, m_capacity = 50\<rparr>, 1, 0)"
  by code_simp

text \<open>
  \<^bold>\<open>C5, as amended.\<close> On an array that satisfies the invariant, \<open>destroy(false)\<close> succeeds,
  leaves the object empty and its block released; \<open>destroy(true)\<close> changes nothing but
  \<open>m_size\<close>, which becomes 0; and \<open>create(n, p)\<close> followed by \<open>destroy(true)\<close> ends with
  size 0, the pointer of the \<open>create\<close>, and capacity \<open>n\<close>, except that a pooled \<open>create\<close>
  with \<open>n\<close> below the old capacity \<open>C\<close> keeps capacity \<open>C\<close>; in either case every
  \<open>create(m, true)\<close> with \<open>m \<le> n\<close> then returns the state unchanged, so it neither
  allocates nor releases.
\<close>

theorem destroy_pooling:
  assumes "array_inv st this"
  shows "(\<exists>st'. destroy st this False = Inr st' \<and> objs st' this = empty_array \<and>
            (\<forall>b. m_values (objs st this) = Ptr b 0 \<longrightarrow> block st' b = None)) \<and>
    destroy st this True = Inr (set_size st this 0) \<and>
    (\<exists>st1 st2. create st this n p = Inr st1 \<and> destroy st1 this True = Inr st2 \<and>
       m_size (objs st2 this) = 0 \<and>
       m_values (objs st2 this) = m_values (objs st1 this) \<and>
       m_capacity (objs st2 this) =
         (if p \<and> n < m_capacity (objs st this) then m_capacity (objs st this) else n) \<and>
       (\<forall>m. m \<le> n \<longrightarrow> create st2 this m True = Inr st2))"
proof (intro conjI)
  from destroy_False_result[OF assms]
  show "\<exists>st'. destroy st this False = Inr st' \<and> objs st' this = empty_array \<and>
            (\<forall>b. m_values (objs st this) = Ptr b 0 \<longrightarrow> block st' b = None)"
    by auto
next
  show "destroy st this True = Inr (set_size st this 0)"
    by (simp add: destroy_def)
next
  let ?C = "m_capacity (objs st this)"
  let ?k = "if p \<and> n < ?C then ?C else n"
  have "\<exists>st1. create st this n p = Inr st1 \<and> m_capacity (objs st1 this) = ?k"
  proof (cases "(n < ?C \<and> \<not> p) \<or> n > ?C")
    case True
    from create_realloc[OF assms True] True show ?thesis
      by (auto simp: empty_array_def word_gt_0)
  next
    case False
    then have "create st this n p = Inr st" by (auto simp: create_def)
    with False show ?thesis by auto
  qed
  then obtain st1 where c: "create st this n p = Inr st1"
    and k: "m_capacity (objs st1 this) = ?k" by blast
  let ?st2 = "set_size st1 this 0"
  have d: "destroy st1 this True = Inr ?st2" by (simp add: destroy_def)
  have ge: "n \<le> ?k" by auto
  have "create ?st2 this m True = Inr ?st2" if "m \<le> n" for m
  proof -
    from that ge k have "m \<le> m_capacity (objs ?st2 this)" by simp
    then show ?thesis by (simp add: create_noop)
  qed
  with c d k show "\<exists>st1 st2. create st this n p = Inr st1 \<and> destroy st1 this True = Inr st2 \<and>
       m_size (objs st2 this) = 0 \<and>
       m_values (objs st2 this) = m_values (objs st1 this) \<and>
       m_capacity (objs st2 this) = ?k \<and>
       (\<forall>m. m \<le> n \<longrightarrow> create st2 this m True = Inr st2)"
    by simp
qed

theorem destroy_pooling_witness:
  "array_inv two_arrays 0 \<and>
   (\<exists>st'. destroy two_arrays 0 False = Inr st' \<and> objs st' 0 = empty_array \<and> block st' 0 = None) \<and>
   (\<exists>st1 st2. create two_arrays 0 2 False = Inr st1 \<and> destroy st1 0 True = Inr st2 \<and>
      m_size (objs st2 0) = 0 \<and> m_capacity (objs st2 0) = 2 \<and>
      create st2 0 1 True = Inr st2)"
proof -
  have v: "m_values (objs two_arrays 0) = Ptr 0 0" and c: "m_capacity (objs two_arrays 0) = 3"
    by (simp_all add: two_arrays_def)
  from destroy_pooling[OF two_arrays_inv(1), of 2 False] v c two_arrays_inv(1)
  show ?thesis by (auto simp del: objs_set)
qed

text \<open>
  \<^bold>\<open>C6.\<close> For two distinct arrays that satisfy the invariant, move construction and
  move assignment of \<open>d\<close> from \<open>c\<close> leave \<open>c\<close> empty (null pointer, size 0, capacity 0)
  and give \<open>d\<close> the pointer, size and capacity \<open>c\<close> had; move construction does not touch
  the free store, and after move assignment every element read through the pointer of \<open>d\<close> is
  what it was through the pointer of \<open>c\<close>.
\<close>

theorem move_steals:
  assumes "this \<noteq> arr" "array_inv st this" "array_inv st arr"
  shows "objs (move_construct st this arr) arr = empty_array \<and>
    objs (move_construct st this arr) this = objs st arr \<and>
    heap (move_construct st this arr) = heap st \<and>
    (\<exists>st'. move_assign st this arr = Inr st' \<and> objs st' arr = empty_array \<and>
       objs st' this = objs st arr \<and>
       (\<forall>i. read_at st' (m_values (objs st' this)) i = read_at st (m_values (objs st arr)) i))"
proof -
  from move_assign_result[OF assms] obtain st' where
    m: "move_assign st this arr = Inr st'"
    and o: "objs st' = (objs st)(this := objs st arr, arr := empty_array)"
    and b: "\<And>b off. m_values (objs st arr) = Ptr b off \<Longrightarrow> block st' b = block st b"
    by blast
  from o assms(1) have t: "objs st' this = objs st arr" and a: "objs st' arr = empty_array"
    by simp_all
  have "read_at st' (m_values (objs st' this)) i = read_at st (m_values (objs st arr)) i" for i
    unfolding t by (rule read_at_block) (rule b)
  with m t a move_construct_result(1,2)[OF assms(1), of st] assms(1) show ?thesis
    by simp
qed

theorem move_steals_witness:
  "(0::nat) \<noteq> Suc 0 \<and> array_inv two_arrays 0 \<and> array_inv two_arrays (Suc 0) \<and>
   objs (move_construct two_arrays 0 (Suc 0)) (Suc 0) = empty_array \<and>
   objs (move_construct two_arrays 0 (Suc 0)) 0 = objs two_arrays (Suc 0) \<and>
   (\<exists>st'. move_assign two_arrays 0 (Suc 0) = Inr st' \<and> objs st' (Suc 0) = empty_array \<and>
      objs st' 0 = \<lparr>m_values = Ptr (Suc 0) 0, m_size = 2, m_capacity = 2\<rparr> \<and>
      read_at st' (m_values (objs st' 0)) 1 = Inr (Some 8))"
proof -
  have ne: "(0::nat) \<noteq> Suc 0" by simp
  have o: "objs two_arrays (Suc 0) = \<lparr>m_values = Ptr (Suc 0) 0, m_size = 2, m_capacity = 2\<rparr>"
    by (simp add: two_arrays_def)
  have r: "read_at two_arrays (Ptr (Suc 0) 0) 1 = Inr (Some 8)"
    by (simp add: read_at_def two_arrays_def block_def)
  from move_steals[OF ne two_arrays_inv] o r two_arrays_inv show ?thesis
    by auto
qed

text \<open>
  \<^bold>\<open>C7.\<close> The invariant (size at most capacity; a positive capacity comes with a live block
  of exactly that many elements; capacity zero comes with a null pointer and size zero)
  holds after default construction, and from states where it holds for the arrays involved
  it holds again after \<open>create\<close> and \<open>destroy\<close> with either flag, after copy assignment
  (for both arrays), after move assignment (for both arrays, \<open>this = arr\<close> included) and
  after move construction. \<open>create\<close>, \<open>destroy\<close> and move assignment always return a state
  there. Copy assignment returns one whenever the source is larger than the capacity of
  \<open>this\<close> or \<open>this\<close> has at most as many elements as the source has capacity; otherwise its
  loop reads outside the source block and there is no state to speak of.
\<close>

theorem array_inv_preserved:
  assumes "array_inv st arr"
  shows "array_inv (array_default st this) this \<and>
    array_inv (move_construct st this arr) this \<and>
    array_inv (move_construct st this arr) arr \<and>
    (array_inv st this \<longrightarrow>
       (\<exists>st'. create st this n p = Inr st' \<and> array_inv st' this) \<and>
       (\<exists>st'. destroy st this p = Inr st' \<and> array_inv st' this) \<and>
       (\<forall>st'. copy_assign st this arr = Inr st' \<longrightarrow> array_inv st' this \<and> array_inv st' arr) \<and>
       (m_capacity (objs st this) < m_size (objs st arr) \<or>
        m_size (objs st this) \<le> m_capacity (objs st arr) \<longrightarrow>
          (\<exists>st'. copy_assign st this arr = Inr st')) \<and>
       (\<exists>st'. move_assign st this arr = Inr st' \<and> array_inv st' this \<and> array_inv st' arr))"
proof (intro conjI impI allI)
  show "array_inv (array_default st this) this" by (rule default_inv)
next
  show "array_inv (move_construct st this arr) this"
  proof (cases "this = arr")
    case True
    then show ?thesis by (simp add: array_inv_empty move_construct_self)
  next
    case False
    from move_construct_result(1,3)[OF False, of st] False show ?thesis
      by (intro array_inv_moved[OF assms]) simp_all
  qed
next
  show "array_inv (move_construct st this arr) arr"
  proof (cases "this = arr")
    case True
    then show ?thesis by (simp add: array_inv_empty move_construct_self)
  next
    case False
    from move_construct_result(1)[OF False, of st] show ?thesis
      by (simp add: array_inv_empty)
  qed
next
  assume "array_inv st this"
  then show "\<exists>st'. create st this n p = Inr st' \<and> array_inv st' this" by (rule create_inv)
next
  assume "array_inv st this"
  then show "\<exists>st'. destroy st this p = Inr st' \<and> array_inv st' this" by (rule destroy_inv)
next
  fix st' assume "array_inv st this" "copy_assign st this arr = Inr st'"
  from copy_assign_inv[OF this(1) assms this(2)]
  show "array_inv st' this" "array_inv st' arr" by simp_all
next
  assume "array_inv st this"
    "m_capacity (objs st this) < m_size (objs st arr) \<or>
     m_size (objs st this) \<le> m_capacity (objs st arr)"
  then show "\<exists>st'. copy_assign st this arr = Inr st'"
    using assms by (intro copy_assign_defined)
next
  assume t: "array_inv st this"
  show "\<exists>st'. move_assign st this arr = Inr st' \<and> array_inv st' this \<and> array_inv st' arr"
  proof (cases "this = arr")
    case True
    then show ?thesis by (simp add: move_assign_self array_inv_empty)
  next
    case False
    from move_assign_result[OF False t assms] obtain st' where
      m: "move_assign st this arr = Inr st'"
      and o: "objs st' = (objs st)(this := objs st arr, arr := empty_array)"
      and b: "\<And>b off. m_values (objs st arr) = Ptr b off \<Longrightarrow> block st' b = block st b"
      by blast
    from o False have "objs st' this = objs st arr" "objs st' arr = empty_array" by simp_all
    with m b array_inv_moved[OF assms, of st' this] show ?thesis
      by (simp add: array_inv_empty)
  qed
qed

theorem array_inv_preserved_witness:
  "array_inv two_arrays 0 \<and> array_inv two_arrays (Suc 0) \<and>
   array_inv (move_construct two_arrays 2 0) 2 \<and>
   (\<exists>st'. create two_arrays (Suc 0) 5 True = Inr st' \<and> array_inv st' (Suc 0)) \<and>
   (\<exists>st'. destroy two_arrays (Suc 0) False = Inr st' \<and> array_inv st' (Suc 0)) \<and>
   (\<exists>st'. copy_assign two_arrays (Suc 0) 0 = Inr st' \<and> array_inv st' (Suc 0) \<and> array_inv st' 0) \<and>
   (\<exists>st'. move_assign two_arrays (Suc 0) 0 = Inr st' \<and> array_inv st' (Suc 0) \<and> array_inv st' 0)"
proof -
  have fit: "m_capacity (objs two_arrays (Suc 0)) < m_size (objs two_arrays 0)"
    by (simp add: two_arrays_def)
  from array_inv_preserved[OF two_arrays_inv(1), of 2]
  have c: "array_inv (move_construct two_arrays 2 0) 2" by blast
  from array_inv_preserved[OF two_arrays_inv(1), of "Suc 0" 5 True] two_arrays_inv(2) fit
  have 1: "\<exists>st'. create two_arrays (Suc 0) 5 True = Inr st' \<and> array_inv st' (Suc 0)"
    and 2: "\<exists>st'. copy_assign two_arrays (Suc 0) 0 = Inr st' \<and> array_inv st' (Suc 0) \<and> array_inv st' 0"
    and 3: "\<exists>st'. move_assign two_arrays (Suc 0) 0 = Inr st' \<and> array_inv st' (Suc 0) \<and> array_inv st' 0"
    by blast+
  from array_inv_preserved[OF two_arrays_inv(1), of "Suc 0" 5 False] two_arrays_inv(2)
  have 4: "\<exists>st'. destroy two_arrays (Suc 0) False = Inr st' \<and> array_inv st' (Suc 0)"
    by blast
  from two_arrays_inv c 1 2 3 4 show ?thesis by blast
qed

text \<open>
  \<^bold>\<open>C8.\<close> For a slice \<open>s\<close> and \<open>a \<le> b \<le> s.size()\<close>, the slice \<open>s(a, b)\<close> has size
  \<open>b - a\<close>, and for every \<open>i < b - a\<close> its element \<open>i\<close> is the element \<open>a + i\<close> of \<open>s\<close>
  (the two reads give the same result in every state). When \<open>s\<close> refers to live storage
  of at least its size, so does \<open>s(a, b)\<close>, and each of these reads returns an element.
\<close>

theorem slice_narrowing:
  assumes "a \<le> b" "b \<le> slice_size s"
  shows "slice_size (slice_call s a b) = b - a \<and>
    (\<forall>i. i < b - a \<longrightarrow> slice_index st (slice_call s a b) i = slice_index st s (a + i)) \<and>
    (slice_valid st s \<longrightarrow> slice_valid st (slice_call s a b) \<and>
       (\<forall>i. i < b - a \<longrightarrow> (\<exists>v. slice_index st s (a + i) = Inr v)))"
proof (intro conjI allI impI)
  show "slice_size (slice_call s a b) = b - a"
    by (simp add: slice_size_def slice_call_def)
next
  fix i assume "i < b - a"
  from narrow_offset[OF assms(1) this]
  show "slice_index st (slice_call s a b) i = slice_index st s (a + i)"
    by (cases "slice.m_values s")
      (simp_all add: slice_index_def slice_call_def read_at_def add.assoc)
next
  assume v: "slice_valid st s"
  from assms have le: "unat a \<le> unat b" "unat b \<le> unat (slice.m_size s)"
    by (simp_all add: word_le_nat_alt slice_size_def)
  from assms(1) have sub: "unat (b - a) = unat b - unat a" by (simp add: unat_sub)
  from v le sub show "slice_valid st (slice_call s a b)"
    by (cases "slice.m_values s")
      (auto simp: slice_valid_def slice_call_def unat_eq_0 split: option.splits)
  fix i assume i: "i < b - a"
  from narrow_offset[OF assms(1) i] i sub have "unat (a + i) < unat b"
    by (simp add: word_less_nat_alt)
  with le have "unat (a + i) < unat (slice.m_size s)" by simp
  with v show "\<exists>v. slice_index st s (a + i) = Inr v"
    by (cases "slice.m_values s")
      (auto simp: slice_valid_def slice_index_def read_at_def split: option.splits)
qed

theorem slice_narrowing_witness:
  "(1::u64) \<le> 3 \<and> 3 \<le> slice_size whole_slice \<and> slice_valid two_arrays whole_slice \<and>
   slice_size (slice_call whole_slice 1 3) = 2 \<and>
   slice_index two_arrays (slice_call whole_slice 1 3) 0 = slice_index two_arrays whole_slice 1 \<and>
   slice_index two_arrays (slice_call whole_slice 1 3) 1 = slice_index two_arrays whole_slice 2 \<and>
   slice_index two_arrays whole_slice 2 = Inr (Some 30)"
proof -
  have h1: "(1::u64) \<le> 3" by simp
  have h2: "(3::u64) \<le> slice_size whole_slice" by (simp add: slice_size_def whole_slice_def)
  have h3: "slice_valid two_arrays whole_slice"
    by (simp add: slice_valid_def whole_slice_def two_arrays_def block_def)
  have h4: "slice_index two_arrays whole_slice 2 = Inr (Some 30)"
    by (simp add: slice_index_def whole_slice_def two_arrays_def block_def read_at_def)
  from slice_narrowing[OF h1 h2, of two_arrays] have
    "slice_size (slice_call whole_slice 1 3) = 3 - 1"
    "\<forall>i. i < 3 - 1 \<longrightarrow> slice_index two_arrays (slice_call whole_slice 1 3) i = slice_index two_arrays whole_slice (1 + i)"
    by blast+
  then have "slice_size (slice_call whole_slice 1 3) = 2"
    "slice_index two_arrays (slice_call whole_slice 1 3) 0 = slice_index two_arrays whole_slice (1 + 0)"
    "slice_index two_arrays (slice_call whole_slice 1 3) 1 = slice_index two_arrays whole_slice (1 + 1)"
    by simp_all
  with h1 h2 h3 h4 show ?thesis by simp
qed

text \<open>
  \<^bold>\<open>C9.\<close> For an array \<open>c\<close> that satisfies the invariant, the self copy assignment
  \<open>c = c\<close> returns the very state it started from: every element, the size and the
  capacity are unchanged, and nothing is allocated or released.
\<close>

theorem self_copy_assign_unchanged:
  "array_inv st c \<Longrightarrow> copy_assign st c c = Inr st"
  by (rule copy_assign_self)

theorem self_copy_assign_unchanged_witness:
  "array_inv two_arrays 0 \<and> copy_assign two_arrays 0 0 = Inr two_arrays"
  using self_copy_assign_unchanged[OF two_arrays_inv(1)] two_arrays_inv(1) by simp

text \<open>
  \<^bold>\<open>C10.\<close> \<open>create(C, false)\<close> with \<open>C\<close> the current capacity returns the state unchanged:
  pointer, size and capacity stay, and nothing is allocated or released.
\<close>

theorem create_same_capacity_noop:
  "create st this (m_capacity (objs st this)) False = Inr st"
  by (simp add: create_def)

end
